theory Spec2Isabelle
  imports Complex_Main "HOL-Library.Word" "HOL-Library.Signed_Division" "HOL-Library.Log_Nat"
begin

section \<open>Algorithm identifiers\<close>

text \<open>
  \<^verbatim>\<open>bundle.hpp\<close> declares three anonymous enums; their enumerators are used as
  \<^verbatim>\<open>unsigned\<close> values throughout, so an identifier is a 32-bit word.
\<close>

type_synonym scheme = "32 word"

definition UNDEFINED :: scheme where "UNDEFINED = 0"
definition SHOCO :: scheme where "SHOCO = 1"
definition LZ4 :: scheme where "LZ4 = 2"
definition MINIZ :: scheme where "MINIZ = 3"
definition LZLIB :: scheme where "LZLIB = 4"

definition NONE :: scheme where "NONE = UNDEFINED"
definition ENTROPY :: scheme where "ENTROPY = SHOCO"
definition LZ77 :: scheme where "LZ77 = LZ4"
definition DEFLATE :: scheme where "DEFLATE = MINIZ"
definition LZMA :: scheme where "LZMA = LZLIB"

definition UNCOMPRESSED :: scheme where "UNCOMPRESSED = NONE"
definition ASCII :: scheme where "ASCII = ENTROPY"
definition FAST :: scheme where "FAST = LZ77"
definition DEFAULT :: scheme where "DEFAULT = DEFLATE"
definition EXTRA :: scheme where "EXTRA = LZMA"

definition NO_COMPRESSION_TRESHOLD :: int where "NO_COMPRESSION_TRESHOLD = 5"

section \<open>The \<^verbatim>\<open>double\<close> values of a measurement\<close>

text \<open>
  The fields of \<^verbatim>\<open>struct measure\<close> are C++ doubles, taken to be IEEE-754 binary64
  with the default rounding, round to nearest with ties to even. A double is a real number
  with a 53-bit significand and an exponent between -1022 and 1023, an infinity, or a NaN.
  The special values are part of the model because \<^verbatim>\<open>measures\<close> divides by
  \<^verbatim>\<open>original.size()\<close>, which is zero for an empty payload. The sign of zero is not
  modelled: the only divisor in the program is a converted \<^verbatim>\<open>size_t\<close>, a positive zero,
  and comparisons do not see the sign of a zero.
\<close>

datatype double = Finite real | PosInf | NegInf | NaN

text \<open>
  The exponent of the binade of a positive real \<open>x\<close>: the integer \<open>e\<close> with
  \<open>2^e \<le> x < 2^(e+1)\<close>, and -1022 for every \<open>x\<close> below \<open>2^(-1022)\<close>, where the
  doubles are equally spaced (the subnormal range).
\<close>

definition binade :: "real \<Rightarrow> int" where
  "binade x = max (- 1022) (if 1 \<le> x then bitlen \<lfloor>x\<rfloor> - 1 else - bitlen (\<lceil>1 / x\<rceil> - 1))"

text \<open>Rounding a real to the nearest integer, a tie going to the even one.\<close>

definition round_even :: "real \<Rightarrow> int" where
  "round_even r =
     (let n = \<lfloor>r\<rfloor>; f = r - of_int n
      in if f < 1 / 2 then n else if 1 / 2 < f then n + 1 else if even n then n else n + 1)"

text \<open>
  The nearest double of a positive real, before the test for overflow: the doubles of the
  binade of \<open>x\<close> are the multiples of \<open>2^(e-52)\<close>.
\<close>

definition round_pos :: "real \<Rightarrow> real" where
  "round_pos x = of_int (round_even (x / 2 powi (binade x - 52))) * 2 powi (binade x - 52)"

text \<open>The double that an exact result \<open>x\<close> is rounded to.\<close>

definition rnd :: "real \<Rightarrow> double" where
  "rnd x =
     (if x = 0 then Finite 0
      else if 0 < x then (if 2 powi 1024 \<le> round_pos x then PosInf else Finite (round_pos x))
      else (if 2 powi 1024 \<le> round_pos (- x) then NegInf else Finite (- round_pos (- x))))"

text \<open>Division, multiplication and subtraction: the exact result, rounded.\<close>

fun ddiv :: "double \<Rightarrow> double \<Rightarrow> double" where
  "ddiv NaN y = NaN"
| "ddiv x NaN = NaN"
| "ddiv (Finite a) (Finite b) =
     (if b \<noteq> 0 then rnd (a / b)
      else if a = 0 then NaN
      else if 0 < a then PosInf else NegInf)"
| "ddiv (Finite a) y = Finite 0"
| "ddiv PosInf (Finite b) = (if 0 \<le> b then PosInf else NegInf)"
| "ddiv NegInf (Finite b) = (if 0 \<le> b then NegInf else PosInf)"
| "ddiv x y = NaN"

fun dmult :: "double \<Rightarrow> double \<Rightarrow> double" where
  "dmult NaN y = NaN"
| "dmult x NaN = NaN"
| "dmult (Finite a) (Finite b) = rnd (a * b)"
| "dmult (Finite a) PosInf = (if a = 0 then NaN else if 0 < a then PosInf else NegInf)"
| "dmult (Finite a) NegInf = (if a = 0 then NaN else if 0 < a then NegInf else PosInf)"
| "dmult PosInf (Finite b) = (if b = 0 then NaN else if 0 < b then PosInf else NegInf)"
| "dmult NegInf (Finite b) = (if b = 0 then NaN else if 0 < b then NegInf else PosInf)"
| "dmult PosInf PosInf = PosInf"
| "dmult NegInf NegInf = PosInf"
| "dmult x y = NegInf"

fun dminus :: "double \<Rightarrow> double \<Rightarrow> double" where
  "dminus NaN y = NaN"
| "dminus x NaN = NaN"
| "dminus (Finite a) (Finite b) = rnd (a - b)"
| "dminus PosInf PosInf = NaN"
| "dminus NegInf NegInf = NaN"
| "dminus PosInf y = PosInf"
| "dminus NegInf y = NegInf"
| "dminus x PosInf = NegInf"
| "dminus x NegInf = PosInf"

text \<open>The comparisons \<^verbatim>\<open><\<close> and \<^verbatim>\<open>>=\<close>: false whenever an operand is a NaN.\<close>

fun dless :: "double \<Rightarrow> double \<Rightarrow> bool" where
  "dless NaN y = False"
| "dless x NaN = False"
| "dless (Finite a) (Finite b) = (a < b)"
| "dless x NegInf = False"
| "dless PosInf y = False"
| "dless x y = True"

fun dgeq :: "double \<Rightarrow> double \<Rightarrow> bool" where
  "dgeq NaN y = False"
| "dgeq x NaN = False"
| "dgeq (Finite a) (Finite b) = (b \<le> a)"
| "dgeq PosInf y = True"
| "dgeq x NegInf = True"
| "dgeq x y = False"

text \<open>
  The conversion of a \<^verbatim>\<open>size_t\<close> to \<^verbatim>\<open>double\<close>: exact below \<open>2^53\<close>,
  rounded to the nearest double above.
\<close>

definition double_of_size :: "nat \<Rightarrow> double" where
  "double_of_size n = rnd (real n)"

section \<open>High-level buffer templates\<close>

text \<open>
  The template overloads of \<^verbatim>\<open>pack\<close> and \<^verbatim>\<open>unpack\<close> work on byte containers
  (\<^verbatim>\<open>sizeof(*std::begin(T())) == 1\<close>), modelled as \<^typ>\<open>string\<close>. They call the low-level
  \<^verbatim>\<open>pack\<close>, \<^verbatim>\<open>unpack\<close> and \<^verbatim>\<open>bound\<close>, which the header only declares; these are
  the parameters \<open>lpack\<close>, \<open>lunpack\<close> and \<open>bound\<close>. A low-level call
  \<^verbatim>\<open>pack(q, in, len, out, zlen)\<close> reads \<open>len\<close> bytes at \<open>in\<close>, writes through
  \<open>out\<close> and updates \<open>zlen\<close>: the parameter takes the identifier, the input bytes (a
  list carries its length), the contents of the output buffer and \<open>zlen\<close>, and returns the
  boolean, the new contents of the output buffer and the new \<open>zlen\<close>.

  \<^verbatim>\<open>buffer.at(0)\<close> is a checked access: on an empty container it throws
  \<^verbatim>\<open>std::out_of_range\<close>. The templates take the address of element 0 of both buffers
  before the low-level call, so the exception is an outcome of the model. The output
  container is passed by reference; the model returns its final contents next to the outcome.
\<close>

datatype exn = Out_of_range

type_synonym lowlevel = "scheme \<Rightarrow> string \<Rightarrow> string \<Rightarrow> nat \<Rightarrow> bool \<times> string \<times> nat"

definition resize :: "nat \<Rightarrow> string \<Rightarrow> string" where
  "resize n buf = take n buf @ replicate (n - length buf) (CHR 0x00)"

definition pack ::
  "lowlevel \<Rightarrow> (scheme \<Rightarrow> nat \<Rightarrow> nat) \<Rightarrow> string \<Rightarrow> string \<Rightarrow> scheme \<Rightarrow> (exn + bool) \<times> string" where
  "pack lpack bound buffer_out buffer_in q =
     (let zlen = bound q (length buffer_in);
          buffer_out = resize zlen buffer_out
      in if buffer_in = [] \<or> buffer_out = [] then (Inl Out_of_range, buffer_out)
         else case lpack q buffer_in buffer_out zlen of
                (result, buffer_out, zlen) \<Rightarrow>
                  if result then (Inr True, resize zlen buffer_out) else (Inr False, []))"

definition unpack :: "lowlevel \<Rightarrow> string \<Rightarrow> string \<Rightarrow> scheme \<Rightarrow> (exn + bool) \<times> string" where
  "unpack lunpack buffer_out buffer_in q =
     (let zlen = length buffer_out
      in if buffer_in = [] \<or> buffer_out = [] then (Inl Out_of_range, buffer_out)
         else case lunpack q buffer_in buffer_out zlen of
                (result, buffer_out, zlen) \<Rightarrow> (Inr result, buffer_out))"

definition encodings :: "scheme list" where
  "encodings = [LZ4, SHOCO, MINIZ, LZLIB, NONE]"

section \<open>Measurements\<close>

record measure =
  q :: scheme
  ratio :: double
  enctime :: double
  dectime :: double
  memusage :: double
  pass :: bool

text \<open>The default member initialisers of \<^verbatim>\<open>struct measure\<close>.\<close>

definition measure_init :: measure where
  "measure_init =
     \<lparr>q = NONE, ratio = Finite 0, enctime = Finite 0, dectime = Finite 0,
      memusage = Finite 0, pass = False\<rparr>"

text \<open>
  \<^verbatim>\<open>measures\<close> calls three things the header does not define: the string functions
  \<^verbatim>\<open>z\<close> and \<^verbatim>\<open>unz\<close> and the clock. They are parameters of the model:
  \<open>z\<close> and \<open>unz\<close> as functions from the buffer and the identifier to the returned
  string, and \<open>now k\<close> as the reading of
  \<^verbatim>\<open>std::chrono::high_resolution_clock::now()\<close> at its \<open>k\<close>-th call, in
  nanoseconds (the period of that clock in the common standard libraries). The readings
  are arbitrary integers: nothing is assumed of the clock.

  \<^verbatim>\<open>duration_cast<milliseconds>(end - begin).count()\<close> is an integer division that
  truncates towards zero; the count is then converted to a double.
\<close>

definition milliseconds :: "int \<Rightarrow> int \<Rightarrow> double" where
  "milliseconds end_t begin_t = rnd (of_int ((end_t - begin_t) sdiv 1000000))"

text \<open>
  The loop of \<^verbatim>\<open>measures\<close> keeps \<^verbatim>\<open>results\<close>, \<^verbatim>\<open>zipped\<close> and
  \<^verbatim>\<open>unzipped\<close> across its iterations. The state of the model adds the number of clock
  readings taken so far and the log of the calls made to \<^verbatim>\<open>z\<close> and
  \<^verbatim>\<open>unz\<close>, in program order, each with the identifier, the buffer passed and the
  string returned.
\<close>

datatype call = Call_z scheme string string | Call_unz scheme string string

record run =
  results :: "measure list"
  zipped :: string
  unzipped :: string
  ticks :: nat
  calls :: "call list"

definition run_init :: run where
  "run_init = \<lparr>results = [], zipped = [], unzipped = [], ticks = 0, calls = []\<rparr>"

text \<open>The block under \<^verbatim>\<open>if( do_enc )\<close>, on the record \<open>r\<close> of the current candidate.\<close>

definition enc_phase ::
  "(string \<Rightarrow> scheme \<Rightarrow> string) \<Rightarrow> (nat \<Rightarrow> int) \<Rightarrow> string \<Rightarrow> scheme \<Rightarrow> measure \<times> run \<Rightarrow> measure \<times> run" where
  "enc_phase z now original scheme = (\<lambda>(r, st).
     (let begin_t = now (ticks st);
          zipped' = z original scheme;
          end_t = now (ticks st + 1)
      in (r\<lparr>enctime := milliseconds end_t begin_t,
            ratio := dminus (Finite 100)
                       (dmult (Finite 100)
                          (ddiv (double_of_size (length zipped')) (double_of_size (length original))))\<rparr>,
          st\<lparr>zipped := zipped', ticks := ticks st + 2,
             calls := calls st @ [Call_z scheme original zipped']\<rparr>)))"

text \<open>The block under \<^verbatim>\<open>if( do_dec )\<close>.\<close>

definition dec_phase ::
  "(string \<Rightarrow> scheme \<Rightarrow> string) \<Rightarrow> (nat \<Rightarrow> int) \<Rightarrow> string \<Rightarrow> scheme \<Rightarrow> measure \<times> run \<Rightarrow> measure \<times> run" where
  "dec_phase unz now original scheme = (\<lambda>(r, st).
     (let begin_t = now (ticks st);
          unzipped' = unz (zipped st) scheme;
          end_t = now (ticks st + 1)
      in (r\<lparr>dectime := milliseconds end_t begin_t, pass := (original = unzipped')\<rparr>,
          st\<lparr>unzipped := unzipped', ticks := ticks st + 2,
             calls := calls st @ [Call_unz scheme (zipped st) unzipped']\<rparr>)))"

text \<open>
  One iteration of \<^verbatim>\<open>for( auto scheme : encodings )\<close>. The source pushes a default
  record and fills it in through a reference to the back of the vector; the model fills the
  record in and appends it.
\<close>

definition iteration ::
  "(string \<Rightarrow> scheme \<Rightarrow> string) \<Rightarrow> (string \<Rightarrow> scheme \<Rightarrow> string) \<Rightarrow> (nat \<Rightarrow> int) \<Rightarrow>
   bool \<Rightarrow> bool \<Rightarrow> bool \<Rightarrow> string \<Rightarrow> run \<Rightarrow> scheme \<Rightarrow> run" where
  "iteration z unz now do_enc do_dec do_verify original st scheme =
     (let rs0 = (measure_init\<lparr>q := scheme\<rparr>, st);
          rs1 = (if do_enc then enc_phase z now original scheme rs0 else rs0);
          rs2 = (if do_dec then dec_phase unz now original scheme rs1 else rs1);
          r = fst rs2;
          st2 = snd rs2;
          r = r\<lparr>pass := (if do_verify \<and> do_enc \<and> do_dec then original = unzipped st2 else True)\<rparr>
      in st2\<lparr>results := results st2 @ [r]\<rparr>)"

definition measures_run ::
  "(string \<Rightarrow> scheme \<Rightarrow> string) \<Rightarrow> (string \<Rightarrow> scheme \<Rightarrow> string) \<Rightarrow> (nat \<Rightarrow> int) \<Rightarrow>
   bool \<Rightarrow> bool \<Rightarrow> bool \<Rightarrow> string \<Rightarrow> scheme list \<Rightarrow> run" where
  "measures_run z unz now do_enc do_dec do_verify original encs =
     foldl (iteration z unz now do_enc do_dec do_verify original) run_init encs"

definition measures ::
  "(string \<Rightarrow> scheme \<Rightarrow> string) \<Rightarrow> (string \<Rightarrow> scheme \<Rightarrow> string) \<Rightarrow> (nat \<Rightarrow> int) \<Rightarrow>
   bool \<Rightarrow> bool \<Rightarrow> bool \<Rightarrow> string \<Rightarrow> scheme list \<Rightarrow> measure list" where
  "measures z unz now do_enc do_dec do_verify original encs =
     results (measures_run z unz now do_enc do_dec do_verify original encs)"

section \<open>Selection\<close>

text \<open>
  \<^verbatim>\<open>measures\<close> is declared
  \<^verbatim>\<open>template< class T, bool do_enc = true, bool do_dec = true, bool do_verify = true >\<close>.
  Explicit template arguments of a call are bound to these parameters from the left, the
  first one to the type parameter \<^verbatim>\<open>T\<close>; what is not given explicitly is deduced
  (\<^verbatim>\<open>T\<close>, from the payload) or defaulted (the flags). An explicit argument is a type or
  a boolean constant. A call whose first explicit argument is a boolean constant binds a
  value to \<^verbatim>\<open>T\<close>: no specialisation of \<^verbatim>\<open>measures\<close> matches it and the call is
  ill-formed, so the function template that contains it cannot be instantiated.
  \<open>Type_arg\<close> stands for the type of the payload.
\<close>

datatype targ = Type_arg | Bool_arg bool

datatype ill_formed = No_matching_function

fun bind_flags :: "targ list \<Rightarrow> (bool \<times> bool \<times> bool) option" where
  "bind_flags [] = Some (True, True, True)"
| "bind_flags [Type_arg] = Some (True, True, True)"
| "bind_flags [Type_arg, Bool_arg e] = Some (e, True, True)"
| "bind_flags [Type_arg, Bool_arg e, Bool_arg d] = Some (e, d, True)"
| "bind_flags [Type_arg, Bool_arg e, Bool_arg d, Bool_arg v] = Some (e, d, v)"
| "bind_flags targs = None"

text \<open>A call \<^verbatim>\<open>measures< targs >( original, encs )\<close>.\<close>

definition measures_with ::
  "targ list \<Rightarrow> (string \<Rightarrow> scheme \<Rightarrow> string) \<Rightarrow> (string \<Rightarrow> scheme \<Rightarrow> string) \<Rightarrow> (nat \<Rightarrow> int) \<Rightarrow>
   string \<Rightarrow> scheme list \<Rightarrow> ill_formed + measure list" where
  "measures_with targs z unz now original encs =
     (case bind_flags targs of
        None \<Rightarrow> Inl No_matching_function
      | Some (do_enc, do_dec, do_verify) \<Rightarrow>
          Inr (measures z unz now do_enc do_dec do_verify original encs))"

text \<open>
  Each selector is a loop over the records, with the running best identifier and the
  running best value, after a call \<^verbatim>\<open>measures< a, b, c >( original, encodings )\<close> with
  three boolean constants as its explicit template arguments.
\<close>

text \<open>\<^verbatim>\<open>100 - NO_COMPRESSION_TRESHOLD / 100.0\<close>, the bound of the smallest-output loop.\<close>

definition smallest_bound :: double where
  "smallest_bound =
     dminus (Finite 100) (ddiv (rnd (of_int NO_COMPRESSION_TRESHOLD)) (Finite 100))"

fun smallest_loop :: "scheme \<Rightarrow> double \<Rightarrow> measure list \<Rightarrow> scheme" where
  "smallest_loop best best_ratio [] = best"
| "smallest_loop best best_ratio (r # rs) =
     (if pass r \<and> dless best_ratio (ratio r) \<and> dgeq (ratio r) smallest_bound
      then smallest_loop (q r) (ratio r) rs
      else smallest_loop best best_ratio rs)"

definition find_smallest_compressor ::
  "(string \<Rightarrow> scheme \<Rightarrow> string) \<Rightarrow> (string \<Rightarrow> scheme \<Rightarrow> string) \<Rightarrow> (nat \<Rightarrow> int) \<Rightarrow>
   string \<Rightarrow> scheme list \<Rightarrow> ill_formed + scheme" where
  "find_smallest_compressor z unz now original encs =
     (case measures_with [Bool_arg True, Bool_arg False, Bool_arg False] z unz now original encs of
        Inl e \<Rightarrow> Inl e
      | Inr res \<Rightarrow> Inr (smallest_loop NONE (Finite 0) res))"

fun fastest_enc_loop :: "scheme \<Rightarrow> double \<Rightarrow> measure list \<Rightarrow> scheme" where
  "fastest_enc_loop best best_time [] = best"
| "fastest_enc_loop best best_time (r # rs) =
     (if pass r \<and> dless (enctime r) best_time
      then fastest_enc_loop (q r) (enctime r) rs
      else fastest_enc_loop best best_time rs)"

definition find_fastest_compressor ::
  "(string \<Rightarrow> scheme \<Rightarrow> string) \<Rightarrow> (string \<Rightarrow> scheme \<Rightarrow> string) \<Rightarrow> (nat \<Rightarrow> int) \<Rightarrow>
   string \<Rightarrow> scheme list \<Rightarrow> ill_formed + scheme" where
  "find_fastest_compressor z unz now original encs =
     (case measures_with [Bool_arg True, Bool_arg False, Bool_arg False] z unz now original encs of
        Inl e \<Rightarrow> Inl e
      | Inr res \<Rightarrow> Inr (fastest_enc_loop NONE (Finite 9999999) res))"

fun fastest_dec_loop :: "scheme \<Rightarrow> double \<Rightarrow> measure list \<Rightarrow> scheme" where
  "fastest_dec_loop best best_time [] = best"
| "fastest_dec_loop best best_time (r # rs) =
     (if pass r \<and> dless (dectime r) best_time
      then fastest_dec_loop (q r) (dectime r) rs
      else fastest_dec_loop best best_time rs)"

definition find_fastest_decompressor ::
  "(string \<Rightarrow> scheme \<Rightarrow> string) \<Rightarrow> (string \<Rightarrow> scheme \<Rightarrow> string) \<Rightarrow> (nat \<Rightarrow> int) \<Rightarrow>
   string \<Rightarrow> scheme list \<Rightarrow> ill_formed + scheme" where
  "find_fastest_decompressor z unz now original encs =
     (case measures_with [Bool_arg False, Bool_arg True, Bool_arg False] z unz now original encs of
        Inl e \<Rightarrow> Inl e
      | Inr res \<Rightarrow> Inr (fastest_dec_loop NONE (Finite 9999999) res))"

section \<open>The record of one candidate\<close>

text \<open>
  Two auxiliary functions for the proofs: the number of clock readings one iteration takes,
  and the record an iteration appends when it starts at clock reading \<open>t\<close>. That the loop
  computes exactly this record is lemma \<open>iteration_results\<close> below.
\<close>

definition per :: "bool \<Rightarrow> bool \<Rightarrow> nat" where
  "per do_enc do_dec = (if do_enc then 2 else 0) + (if do_dec then 2 else 0)"

definition record_of ::
  "(string \<Rightarrow> scheme \<Rightarrow> string) \<Rightarrow> (string \<Rightarrow> scheme \<Rightarrow> string) \<Rightarrow> (nat \<Rightarrow> int) \<Rightarrow>
   bool \<Rightarrow> bool \<Rightarrow> bool \<Rightarrow> string \<Rightarrow> nat \<Rightarrow> scheme \<Rightarrow> measure" where
  "record_of z unz now do_enc do_dec do_verify original t scheme =
     \<lparr>q = scheme,
      ratio = (if do_enc
               then dminus (Finite 100)
                      (dmult (Finite 100)
                         (ddiv (double_of_size (length (z original scheme)))
                               (double_of_size (length original))))
               else Finite 0),
      enctime = (if do_enc then milliseconds (now (t + 1)) (now t) else Finite 0),
      dectime = (if do_dec
                 then milliseconds (now (t + (if do_enc then 2 else 0) + 1))
                        (now (t + (if do_enc then 2 else 0)))
                 else Finite 0),
      memusage = Finite 0,
      pass = (if do_verify \<and> do_enc \<and> do_dec
              then original = unz (z original scheme) scheme else True)\<rparr>"

section \<open>Order of the calls\<close>

text \<open>
  A property of a call log: every call of \<^verbatim>\<open>unz\<close> comes directly after a call of
  \<^verbatim>\<open>z\<close> for the same identifier and is given the string that call returned.
\<close>

fun dec_after_own_enc :: "call list \<Rightarrow> bool" where
  "dec_after_own_enc [] = True"
| "dec_after_own_enc (Call_z s x zx # Call_unz s' y uy # cs) =
     (s' = s \<and> y = zx \<and> dec_after_own_enc cs)"
| "dec_after_own_enc (Call_z s x zx # cs) = dec_after_own_enc cs"
| "dec_after_own_enc (Call_unz s' y uy # cs) = False"

section \<open>The low-level interface, from its contract\<close>

text \<open>
  Modelled from the spec: the codec implementations, which are not part of
  \<^verbatim>\<open>bundle.hpp\<close>. A codec is what the registry holds for an identifier: its pack
  function (\<open>None\<close> when the algorithm rejects the input) and its unpack function, which is
  given the compressed bytes and the expected length of the output.
\<close>

record codec =
  cpack :: "string \<Rightarrow> string option"
  cunpack :: "string \<Rightarrow> nat \<Rightarrow> string option"

text \<open>
  Modelled from the spec: the low-level \<^verbatim>\<open>pack\<close>, which \<^verbatim>\<open>bundle.hpp\<close> declares
  and does not define. It compresses into the caller's buffer, whose capacity comes in
  through \<open>zlen\<close>; on success it returns true and rewrites \<open>zlen\<close> to the actual
  compressed size; it returns false when the identifier is not in the registry, when the
  algorithm rejects the input and when the buffer is too small.
\<close>

definition spec_pack :: "(scheme \<Rightarrow> codec option) \<Rightarrow> lowlevel" where
  "spec_pack registry s inp out zlen =
     (case registry s of
        None \<Rightarrow> (False, out, zlen)
      | Some c \<Rightarrow>
          (case cpack c inp of
             None \<Rightarrow> (False, out, zlen)
           | Some zs \<Rightarrow>
               if zlen < length zs then (False, out, zlen)
               else (True, zs @ drop (length zs) out, length zs)))"

text \<open>
  Modelled from the spec: the low-level \<^verbatim>\<open>unpack\<close>, declared and not defined in
  \<^verbatim>\<open>bundle.hpp\<close>. It is symmetric to \<^verbatim>\<open>pack\<close>; the caller has sized the output
  buffer to the expected length, which comes in through \<open>zlen\<close>.
\<close>

definition spec_unpack :: "(scheme \<Rightarrow> codec option) \<Rightarrow> lowlevel" where
  "spec_unpack registry s inp out zlen =
     (case registry s of
        None \<Rightarrow> (False, out, zlen)
      | Some c \<Rightarrow>
          (case cunpack c inp zlen of
             None \<Rightarrow> (False, out, zlen)
           | Some xs \<Rightarrow>
               if zlen < length xs then (False, out, zlen)
               else (True, xs @ drop (length xs) out, length xs)))"

section \<open>Sample collaborators\<close>

text \<open>
  Concrete stand-ins for \<^verbatim>\<open>z\<close>, \<^verbatim>\<open>unz\<close>, the clock and the low-level functions,
  used only to evaluate the model at explicit inputs.
\<close>

definition z_copy :: "string \<Rightarrow> scheme \<Rightarrow> string" where
  "z_copy x s = x"

definition unz_copy :: "string \<Rightarrow> scheme \<Rightarrow> string" where
  "unz_copy x s = x"

text \<open>\<open>unz_faulty\<close> loses the data of \<open>LZ4\<close> streams and copies every other stream.\<close>

definition unz_faulty :: "string \<Rightarrow> scheme \<Rightarrow> string" where
  "unz_faulty x s = (if s = LZ4 then [] else x)"

text \<open>\<open>z_keep n m\<close> keeps \<open>n\<close> percent of the payload under \<open>LZ4\<close> and \<open>m\<close> percent otherwise.\<close>

definition z_keep :: "nat \<Rightarrow> nat \<Rightarrow> string \<Rightarrow> scheme \<Rightarrow> string" where
  "z_keep n m x s = (if s = LZ4 then take (n * length x div 100) x else take (m * length x div 100) x)"

text \<open>\<open>z_grow\<close> appends one byte to the payload.\<close>

definition z_grow :: "string \<Rightarrow> scheme \<Rightarrow> string" where
  "z_grow x s = x @ [CHR 0x00]"

text \<open>\<open>z_take n\<close> keeps the first \<open>n\<close> bytes of the payload.\<close>

definition z_take :: "nat \<Rightarrow> string \<Rightarrow> scheme \<Rightarrow> string" where
  "z_take n x s = take n x"

definition clock_still :: "nat \<Rightarrow> int" where
  "clock_still k = 0"

definition lpack_copy :: lowlevel where
  "lpack_copy s inp out zlen =
     (if zlen < length inp then (False, out, zlen)
      else (True, inp @ drop (length inp) out, length inp))"





section \<open>Rounding\<close>

lemma raw_binade_ge1:
  fixes x :: real
  assumes "1 \<le> x"
  shows "2 powi (bitlen \<lfloor>x\<rfloor> - 1) \<le> x \<and> x < 2 powi (bitlen \<lfloor>x\<rfloor> - 1 + 1)"
proof -
  let ?n = "\<lfloor>x\<rfloor>"
  have n: "0 < ?n" using assms by simp
  from bitlen_bounds [OF n]
  have lo: "2 ^ nat (bitlen ?n - 1) \<le> ?n" and hi: "?n < 2 ^ nat (bitlen ?n)" by simp_all
  have b1: "1 \<le> bitlen ?n" using n bitlen_eq_zero_iff [of ?n] bitlen_nonneg [of ?n] by linarith
  have "(2::real) ^ nat (bitlen ?n - 1) = of_int (2 ^ nat (bitlen ?n - 1))" by simp
  also have "\<dots> \<le> of_int ?n" using lo by (rule of_int_le_iff [THEN iffD2])
  also have "\<dots> \<le> x" by simp
  finally have 1: "2 powi (bitlen ?n - 1) \<le> x" using b1 by (simp add: power_int_def)
  have "?n + 1 \<le> 2 ^ nat (bitlen ?n)" using hi by simp
  then have "of_int (?n + 1) \<le> (of_int (2 ^ nat (bitlen ?n)) :: real)"
    by (rule of_int_le_iff [THEN iffD2])
  moreover have "x < of_int (?n + 1)" by linarith
  moreover have "(of_int (2 ^ nat (bitlen ?n)) :: real) = 2 ^ nat (bitlen ?n)" by simp
  ultimately have "x < 2 ^ nat (bitlen ?n)" by linarith
  then have 2: "x < 2 powi (bitlen ?n - 1 + 1)" using b1 by (simp add: power_int_def)
  from 1 2 show ?thesis by simp
qed

lemma raw_binade_lt1:
  fixes x :: real
  assumes "0 < x" "x < 1"
  shows "2 powi (- bitlen (\<lceil>1 / x\<rceil> - 1)) \<le> x \<and> x < 2 powi (- bitlen (\<lceil>1 / x\<rceil> - 1) + 1)"
proof -
  let ?y = "1 / x"
  let ?m = "\<lceil>?y\<rceil>"
  let ?k = "bitlen (?m - 1)"
  have y: "1 < ?y" using assms by simp
  then have "1 < ?m" by (simp add: less_ceiling_iff)
  then have m: "0 < ?m - 1" by simp
  from bitlen_bounds [OF m]
  have lo: "2 ^ nat (?k - 1) \<le> ?m - 1" and hi: "?m - 1 < 2 ^ nat ?k" by simp_all
  have k1: "1 \<le> ?k" using m bitlen_eq_zero_iff [of "?m - 1"] bitlen_nonneg [of "?m - 1"] by linarith
  have "?m \<le> 2 ^ nat ?k" using hi by simp
  then have "of_int ?m \<le> (of_int (2 ^ nat ?k) :: real)" by (rule of_int_le_iff [THEN iffD2])
  moreover have "?y \<le> of_int ?m" by (rule le_of_int_ceiling)
  moreover have "(of_int (2 ^ nat ?k) :: real) = 2 ^ nat ?k" by simp
  ultimately have "?y \<le> 2 ^ nat ?k" by linarith
  then have "1 \<le> x * 2 ^ nat ?k" using assms by (simp add: field_simps)
  then have 1: "2 powi (- ?k) \<le> x"
    using k1 by (simp add: power_int_def field_simps)
  have "(of_int (2 ^ nat (?k - 1)) :: real) \<le> of_int (?m - 1)"
    using lo by (rule of_int_le_iff [THEN iffD2])
  moreover have "of_int (?m - 1) < ?y" by linarith
  moreover have "(of_int (2 ^ nat (?k - 1)) :: real) = 2 ^ nat (?k - 1)" by simp
  ultimately have "2 ^ nat (?k - 1) < ?y" by linarith
  then have "x * 2 ^ nat (?k - 1) < 1" using assms by (simp add: field_simps)
  then have "x < 1 / 2 ^ nat (?k - 1)" by (simp add: pos_less_divide_eq)
  also have "1 / (2::real) ^ nat (?k - 1) = 2 powi (- ?k + 1)"
    using k1 by (cases "?k = 1") (simp_all add: power_int_def field_simps)
  finally have 2: "x < 2 powi (- ?k + 1)" .
  from 1 2 show ?thesis by simp
qed

lemma binade_ge: "- 1022 \<le> binade x"
  by (simp add: binade_def)

lemma binade_upper:
  assumes "0 < x"
  shows "x < 2 powi (binade x + 1)"
proof -
  define e where "e = (if 1 \<le> x then bitlen \<lfloor>x\<rfloor> - 1 else - bitlen (\<lceil>1 / x\<rceil> - 1))"
  have "x < 2 powi (e + 1)"
    using raw_binade_ge1 [of x] raw_binade_lt1 [of x] assms by (auto simp: e_def)
  also have "\<dots> \<le> 2 powi (binade x + 1)"
    by (rule power_int_increasing) (simp_all add: binade_def e_def)
  finally show ?thesis .
qed

lemma binade_lower:
  assumes "0 < x" "binade x \<noteq> - 1022"
  shows "2 powi (binade x) \<le> x"
proof -
  define e where "e = (if 1 \<le> x then bitlen \<lfloor>x\<rfloor> - 1 else - bitlen (\<lceil>1 / x\<rceil> - 1))"
  have b: "binade x = max (- 1022) e" by (simp add: binade_def e_def)
  with assms(2) have "binade x = e" by (simp add: max_def split: if_splits)
  moreover have "2 powi e \<le> x"
    using raw_binade_ge1 [of x] raw_binade_lt1 [of x] assms(1) by (auto simp: e_def)
  ultimately show ?thesis by simp
qed

lemma binade_mono:
  assumes "0 < x" "x \<le> y"
  shows "binade x \<le> binade y"
proof (rule ccontr)
  assume "\<not> binade x \<le> binade y"
  then have lt: "binade y + 1 \<le> binade x" by simp
  then have "binade x \<noteq> - 1022" using binade_ge [of y] by linarith
  then have "2 powi (binade x) \<le> x" using assms(1) by (rule binade_lower [rotated])
  also have "x \<le> y" by fact
  also have "y < 2 powi (binade y + 1)" using assms by (intro binade_upper) simp
  also have "\<dots> \<le> 2 powi (binade x)" using lt by (intro power_int_increasing) simp_all
  finally show False by simp
qed

lemma binade_eq:
  assumes "- 1022 \<le> e" "2 powi e \<le> x" "x < 2 powi (e + 1)"
  shows "binade x = e"
proof -
  have x: "0 < x" using assms(2) zero_less_power_int [of "2::real" e] by linarith
  have "binade x \<le> e"
  proof (rule ccontr)
    assume "\<not> binade x \<le> e"
    then have lt: "e + 1 \<le> binade x" by simp
    then have "binade x \<noteq> - 1022" using assms(1) by linarith
    then have "2 powi (binade x) \<le> x" using x by (rule binade_lower [rotated])
    also have "x < 2 powi (e + 1)" by fact
    also have "\<dots> \<le> 2 powi (binade x)" using lt by (intro power_int_increasing) simp_all
    finally show False by simp
  qed
  moreover have "e \<le> binade x"
  proof (rule ccontr)
    assume "\<not> e \<le> binade x"
    then have lt: "binade x + 1 \<le> e" by simp
    have "x < 2 powi (binade x + 1)" using x by (rule binade_upper)
    also have "\<dots> \<le> 2 powi e" using lt by (intro power_int_increasing) simp_all
    also have "\<dots> \<le> x" by fact
    finally show False by simp
  qed
  ultimately show ?thesis by simp
qed

lemma round_even_of_int: "round_even (of_int k) = k"
  by (simp add: round_even_def)

lemma round_even_mono:
  assumes "a \<le> b"
  shows "round_even a \<le> round_even b"
proof -
  have fl: "\<lfloor>a\<rfloor> \<le> \<lfloor>b\<rfloor>" using assms by (rule floor_mono)
  show ?thesis
  proof (cases "\<lfloor>a\<rfloor> = \<lfloor>b\<rfloor>")
    case True
    then show ?thesis using assms by (auto simp: round_even_def Let_def)
  next
    case False
    with fl have "\<lfloor>a\<rfloor> + 1 \<le> \<lfloor>b\<rfloor>" by simp
    moreover have "round_even a \<le> \<lfloor>a\<rfloor> + 1" by (auto simp: round_even_def Let_def)
    moreover have "\<lfloor>b\<rfloor> \<le> round_even b" by (auto simp: round_even_def Let_def)
    ultimately show ?thesis by linarith
  qed
qed

lemma round_even_err: "\<bar>of_int (round_even r) - r\<bar> \<le> 1 / 2"
proof -
  have "of_int \<lfloor>r\<rfloor> \<le> r" "r < of_int \<lfloor>r\<rfloor> + 1" by linarith+
  then show ?thesis by (auto simp: round_even_def Let_def abs_le_iff)
qed


lemma round_pos_upper:
  assumes "0 < x"
  shows "round_pos x \<le> 2 powi (binade x + 1)"
proof -
  let ?u = "(2::real) powi (binade x - 52)"
  have split: "(2::real) powi (binade x + 1) = of_int (2 ^ 53) * ?u"
    using power_int_add [of "2::real" 53 "binade x - 52"] by (simp add: add.commute)
  have "x / ?u \<le> 2 powi (binade x + 1) / ?u"
    using binade_upper [OF assms] by (simp add: divide_right_mono)
  also have "\<dots> = of_int (2 ^ 53)" unfolding split by simp
  finally have "round_even (x / ?u) \<le> 2 ^ 53"
    using round_even_mono [of "x / ?u" "of_int (2 ^ 53)"] by (simp only: round_even_of_int)
  then have "(of_int (round_even (x / ?u)) :: real) \<le> of_int (2 ^ 53)"
    by (rule of_int_le_iff [THEN iffD2])
  then have "of_int (round_even (x / ?u)) * ?u \<le> of_int (2 ^ 53) * ?u"
    by (rule mult_right_mono) simp
  then show ?thesis unfolding round_pos_def split .
qed

lemma round_pos_lower:
  assumes "0 < x" "2 powi (binade x) \<le> x"
  shows "2 powi (binade x) \<le> round_pos x"
proof -
  let ?u = "(2::real) powi (binade x - 52)"
  have split: "(2::real) powi (binade x) = of_int (2 ^ 52) * ?u"
    using power_int_add [of "2::real" 52 "binade x - 52"] by simp
  have "of_int (2 ^ 52) = 2 powi (binade x) / ?u" unfolding split by simp
  also have "\<dots> \<le> x / ?u" using assms(2) by (simp add: divide_right_mono)
  finally have "2 ^ 52 \<le> round_even (x / ?u)"
    using round_even_mono [of "of_int (2 ^ 52)" "x / ?u"] by (simp only: round_even_of_int)
  then have "(of_int (2 ^ 52) :: real) \<le> of_int (round_even (x / ?u))"
    by (rule of_int_le_iff [THEN iffD2])
  then have "of_int (2 ^ 52) * ?u \<le> of_int (round_even (x / ?u)) * ?u"
    by (rule mult_right_mono) simp
  then show ?thesis unfolding round_pos_def split .
qed

lemma round_pos_mono:
  assumes "0 < x" "x \<le> y"
  shows "round_pos x \<le> round_pos y"
proof (cases "binade x = binade y")
  case True
  let ?u = "(2::real) powi (binade y - 52)"
  have "x / ?u \<le> y / ?u" using assms(2) by (simp add: divide_right_mono)
  then have "round_even (x / ?u) \<le> round_even (y / ?u)" by (rule round_even_mono)
  then have "(of_int (round_even (x / ?u)) :: real) \<le> of_int (round_even (y / ?u))"
    by (rule of_int_le_iff [THEN iffD2])
  then have "of_int (round_even (x / ?u)) * ?u \<le> of_int (round_even (y / ?u)) * ?u"
    by (rule mult_right_mono) simp
  then show ?thesis unfolding round_pos_def True .
next
  case False
  with binade_mono [OF assms] have lt: "binade x + 1 \<le> binade y" by simp
  have y: "0 < y" using assms by simp
  have "binade y \<noteq> - 1022" using lt binade_ge [of x] by linarith
  then have "2 powi (binade y) \<le> y" using y by (rule binade_lower [rotated])
  then have "2 powi (binade y) \<le> round_pos y" using y by (rule round_pos_lower [rotated])
  moreover have "round_pos x \<le> 2 powi (binade x + 1)" using assms(1) by (rule round_pos_upper)
  moreover have "(2::real) powi (binade x + 1) \<le> 2 powi (binade y)"
    using lt by (intro power_int_increasing) simp_all
  ultimately show ?thesis by linarith
qed

lemma round_pos_err:
  assumes "0 < x" "2 powi (binade x) \<le> x"
  shows "\<bar>round_pos x - x\<bar> \<le> x / 2 ^ 53"
proof -
  let ?u = "(2::real) powi (binade x - 52)"
  let ?m = "of_int (round_even (x / ?u)) :: real"
  have u: "0 < ?u" by simp
  have "\<bar>?m - x / ?u\<bar> \<le> 1 / 2" by (rule round_even_err)
  then have "\<bar>?m - x / ?u\<bar> * ?u \<le> 1 / 2 * ?u" by (rule mult_right_mono) simp
  moreover have "\<bar>?m - x / ?u\<bar> * ?u = \<bar>?m * ?u - x\<bar>"
  proof -
    have "\<bar>?m * ?u - x\<bar> = \<bar>(?m - x / ?u) * ?u\<bar>" using u by (simp add: left_diff_distrib)
    also have "\<dots> = \<bar>?m - x / ?u\<bar> * ?u" using u by (simp add: abs_mult)
    finally show ?thesis by simp
  qed
  ultimately have "\<bar>round_pos x - x\<bar> \<le> ?u / 2" by (simp add: round_pos_def)
  also have "?u / 2 = 2 powi (binade x) / 2 ^ 53"
    using power_int_diff [of "2::real" "binade x" 52] by simp
  also have "\<dots> \<le> x / 2 ^ 53" using assms(2) by (simp add: divide_right_mono)
  finally show ?thesis .
qed

lemma binade_of_nat:
  assumes "0 < n" "n < 2 ^ 53"
  shows "0 \<le> binade (real n) \<and> binade (real n) \<le> 52"
proof -
  have one: "binade 1 = 0" by (rule binade_eq) simp_all
  have "binade 1 \<le> binade (real n)" using assms(1) by (intro binade_mono) simp_all
  then have lo: "0 \<le> binade (real n)" by (simp add: one)
  have top: "binade (2 ^ 53 - 1) = 52" by (rule binade_eq) simp_all
  have "real n \<le> 2 ^ 53 - 1"
  proof -
    have "n \<le> 2 ^ 53 - 1" using assms(2) by simp
    then have "real n \<le> real (2 ^ 53 - 1)" by (rule of_nat_mono)
    then show ?thesis by simp
  qed
  then have "binade (real n) \<le> binade (2 ^ 53 - 1)" using assms(1) by (intro binade_mono) simp_all
  with lo top show ?thesis by simp
qed

lemma round_pos_of_nat:
  assumes "0 < n" "n < 2 ^ 53"
  shows "round_pos (real n) = real n"
proof -
  let ?b = "binade (real n)"
  from binade_of_nat [OF assms] have b: "0 \<le> ?b" "?b \<le> 52" by simp_all
  let ?u = "(2::real) powi (?b - 52)"
  have u: "?u * 2 ^ nat (52 - ?b) = 1"
    using b power_int_add [of "2::real" "?b - 52" "52 - ?b"] by (simp add: power_int_def)
  then have "real n / ?u = real n * 2 ^ nat (52 - ?b)"
    by (simp add: field_simps)
  also have "\<dots> = of_int (int n * 2 ^ nat (52 - ?b))" by simp
  finally have "round_even (real n / ?u) = int n * 2 ^ nat (52 - ?b)"
    by (simp only: round_even_of_int)
  then have "round_pos (real n) = real n * (2 ^ nat (52 - ?b) * ?u)"
    by (simp add: round_pos_def)
  also have "2 ^ nat (52 - ?b) * ?u = 1" using u by (simp add: mult.commute)
  finally show ?thesis by simp
qed

lemma rnd_0: "rnd 0 = Finite 0"
  by (simp add: rnd_def)

lemma rnd_pos:
  assumes "0 < x" "round_pos x < 2 powi 1024"
  shows "rnd x = Finite (round_pos x)"
  using assms by (simp add: rnd_def)

lemma rnd_neg:
  assumes "x < 0" "round_pos (- x) < 2 powi 1024"
  shows "rnd x = Finite (- round_pos (- x))"
  using assms by (simp add: rnd_def)

lemma rnd_of_nat:
  assumes "n < 2 ^ 53"
  shows "rnd (real n) = Finite (real n)"
proof (cases "n = 0")
  case True
  then show ?thesis by (simp add: rnd_0)
next
  case False
  then have n: "0 < n" by simp
  have r: "round_pos (real n) = real n" using n assms by (rule round_pos_of_nat)
  have "real n < real (2 ^ 53)" using assms by (rule of_nat_less_iff [THEN iffD2])
  also have "\<dots> < 2 powi 1024" by simp
  finally show ?thesis using n r by (simp add: rnd_pos)
qed

lemmas round_defs = round_pos_def binade_def round_even_def compute_bitlen

lemmas rnd_defs = rnd_def round_defs

lemma binade_le_self:
  assumes "2 powi (- 1022) \<le> x"
  shows "2 powi (binade x) \<le> x"
proof (cases "binade x = - 1022")
  case True
  then show ?thesis using assms by simp
next
  case False
  have "0 < x" using assms zero_less_power_int [of "2::real" "- 1022"] by linarith
  then show ?thesis using False by (rule binade_lower)
qed

lemma round_pos_normal:
  assumes "2 powi (- 1022) \<le> x"
  shows "0 < round_pos x \<and> \<bar>round_pos x - x\<bar> \<le> x / 2 ^ 53"
proof -
  have x: "0 < x" using assms zero_less_power_int [of "2::real" "- 1022"] by linarith
  have b: "2 powi (binade x) \<le> x" using assms by (rule binade_le_self)
  have "0 < (2::real) powi (binade x)" by simp
  also have "\<dots> \<le> round_pos x" using x b by (rule round_pos_lower)
  finally show ?thesis using round_pos_err [OF x b] by simp
qed

lemma normal_2m53: "(2::real) powi (- 1022) \<le> 1 / 2 ^ 53"
  by (simp add: power_int_minus field_simps)

lemma round_pos_below_1: "round_pos (1 - 1 / 2 ^ 53) = 1 - 1 / 2 ^ 53"
  by (simp add: round_defs)

lemma round_pos_below_100: "round_pos (100 * (1 - 1 / 2 ^ 53)) = 100 - 1 / 2 ^ 46"
  by (simp add: round_defs)

lemma round_pos_above_1: "round_pos (2 ^ 53 / (2 ^ 53 - 1)) = 1 + 1 / 2 ^ 52"
  by (simp add: round_defs)

lemma round_pos_above_100: "round_pos (100 * (1 + 1 / 2 ^ 52)) = 100 + 1 / 2 ^ 45"
  by (simp add: round_defs)

lemma round_pos_2p53: "round_pos (2 ^ 53) = 2 ^ 53"
  by (simp add: round_defs)

lemma round_pos_100_2p53: "round_pos (100 * 2 ^ 53) = 100 * 2 ^ 53"
  by (simp add: round_defs)

lemma round_pos_100: "round_pos 100 = 100"
  by (simp add: round_defs)

lemma rnd_1: "rnd 1 = Finite 1"
  by (simp add: rnd_defs)

lemma rnd_100: "rnd 100 = Finite 100"
  by (simp add: rnd_defs)


lemma round_pos_2m53: "round_pos (1 / 2 ^ 53) = 1 / 2 ^ 53"
  by (simp add: round_defs)

lemma rnd_between:
  assumes lo: "2 powi (- 1022) \<le> lo" "lo \<le> x" and hi: "x \<le> hi" "round_pos hi < 2 powi 1024"
  shows "\<exists>y. rnd x = Finite y \<and> rnd (- x) = Finite (- y) \<and> round_pos lo \<le> y \<and>
             y \<le> round_pos hi \<and> 0 < y \<and> \<bar>y - x\<bar> \<le> x / 2 ^ 53"
proof -
  have lo_pos: "0 < lo" using lo(1) zero_less_power_int [of "2::real" "- 1022"] by linarith
  then have x_pos: "0 < x" using lo(2) by linarith
  have n: "2 powi (- 1022) \<le> x" using lo by linarith
  have 1: "round_pos lo \<le> round_pos x" using lo_pos lo(2) by (rule round_pos_mono)
  have 2: "round_pos x \<le> round_pos hi" using x_pos hi(1) by (rule round_pos_mono)
  have 3: "round_pos x < 2 powi 1024" using 2 hi(2) by linarith
  have "rnd x = Finite (round_pos x)" using x_pos 3 by (rule rnd_pos)
  moreover have "rnd (- x) = Finite (- round_pos x)"
    using rnd_neg [of "- x"] x_pos 3 by simp
  ultimately show ?thesis using 1 2 round_pos_normal [OF n] by blast
qed

lemma ratio_error_less:
  fixes x y p v :: real
  assumes "0 < y" "\<bar>y - x\<bar> \<le> x / 2 ^ 53" "0 < p" "\<bar>p - 100 * y\<bar> \<le> 100 * y / 2 ^ 53"
    "\<bar>v - (100 - p)\<bar> \<le> (100 - p) / 2 ^ 53"
  shows "\<bar>v - 100 * (1 - x)\<bar> \<le> (100 + 700 * x) / 2 ^ 53"
proof -
  note f = abs_le_D1 [OF assms(2)] abs_le_D2 [OF assms(2)] abs_le_D1 [OF assms(4)]
    abs_le_D2 [OF assms(4)] abs_le_D1 [OF assms(5)] abs_le_D2 [OF assms(5)] assms(1,3)
  have a: "v - 100 * (1 - x) \<le> (100 + 700 * x) / 2 ^ 53"
    using f by (simp; linarith)
  have b: "- (v - 100 * (1 - x)) \<le> (100 + 700 * x) / 2 ^ 53"
    using f by (simp; linarith)
  from a b show ?thesis by (rule abs_leI)
qed

lemma ratio_error_more:
  fixes x y p w :: real
  assumes "0 < y" "\<bar>y - x\<bar> \<le> x / 2 ^ 53" "0 < p" "\<bar>p - 100 * y\<bar> \<le> 100 * y / 2 ^ 53"
    "\<bar>w - (p - 100)\<bar> \<le> (p - 100) / 2 ^ 53"
  shows "\<bar>- w - 100 * (1 - x)\<bar> \<le> (100 + 700 * x) / 2 ^ 53"
proof -
  note f = abs_le_D1 [OF assms(2)] abs_le_D2 [OF assms(2)] abs_le_D1 [OF assms(4)]
    abs_le_D2 [OF assms(4)] abs_le_D1 [OF assms(5)] abs_le_D2 [OF assms(5)] assms(1,3)
  have a: "- w - 100 * (1 - x) \<le> (100 + 700 * x) / 2 ^ 53"
    using f by (simp; linarith)
  have b: "- (- w - 100 * (1 - x)) \<le> (100 + 700 * x) / 2 ^ 53"
    using f by (simp; linarith)
  from a b show ?thesis by (rule abs_leI)
qed

lemma ratio_double:
  fixes c n :: nat
  assumes n: "0 < n" "n < 2 ^ 53" and c: "c < 2 ^ 53"
  shows "\<exists>v. dminus (Finite 100)
               (dmult (Finite 100) (ddiv (double_of_size c) (double_of_size n))) = Finite v \<and>
             \<bar>v - 100 * (1 - real c / real n)\<bar> \<le> (100 + 700 * (real c / real n)) / 2 ^ 53 \<and>
             (v = 0 \<longleftrightarrow> c = n) \<and> (v < 0 \<longleftrightarrow> n < c)"
proof -
  define x where "x = real c / real n"
  have rn: "0 < real n" "real n \<le> 2 ^ 53 - 1"
  proof -
    show "0 < real n" using n(1) by simp
    have "n \<le> 2 ^ 53 - 1" using n(2) by simp
    then have "real n \<le> real (2 ^ 53 - 1)" by (rule of_nat_mono)
    then show "real n \<le> 2 ^ 53 - 1" by simp
  qed
  have rc: "real c \<le> 2 ^ 53 - 1"
  proof -
    have "c \<le> 2 ^ 53 - 1" using c by simp
    then have "real c \<le> real (2 ^ 53 - 1)" by (rule of_nat_mono)
    then show ?thesis by simp
  qed
  have start: "ddiv (double_of_size c) (double_of_size n) = rnd x"
    using n c by (simp add: double_of_size_def rnd_of_nat x_def)
  have normal_2m46: "(2::real) powi (- 1022) \<le> 1 / 2 ^ 46" by (simp add: power_int_minus field_simps)
  have normal_2m45: "(2::real) powi (- 1022) \<le> 1 / 2 ^ 45" by (simp add: power_int_minus field_simps)
  consider (zero) "c = 0" | (same) "c = n" | (less) "0 < c" "c < n" | (more) "n < c"
    by linarith
  then show ?thesis
  proof cases
    case zero
    then have "x = 0" by (simp add: x_def)
    then have res: "dminus (Finite 100)
        (dmult (Finite 100) (ddiv (double_of_size c) (double_of_size n))) = Finite 100"
      unfolding start by (simp add: rnd_0 rnd_100)
    have "\<bar>100 - 100 * (1 - real c / real n)\<bar> \<le> (100 + 700 * (real c / real n)) / 2 ^ 53"
      using zero by simp
    moreover have "c \<noteq> n" "\<not> n < c" using zero n by simp_all
    ultimately show ?thesis using res by (intro exI [of _ 100]) simp
  next
    case same
    then have "x = 1" using n by (simp add: x_def)
    then have res: "dminus (Finite 100)
        (dmult (Finite 100) (ddiv (double_of_size c) (double_of_size n))) = Finite 0"
      unfolding start by (simp add: rnd_1 rnd_100 rnd_0)
    have "\<bar>0 - 100 * (1 - real c / real n)\<bar> \<le> (100 + 700 * (real c / real n)) / 2 ^ 53"
      using same n by simp
    then show ?thesis using res same by (intro exI [of _ 0]) simp
  next
    case less
    have "real c + 1 \<le> real n" using less(2) by linarith
    then have x_hi: "x \<le> 1 - 1 / 2 ^ 53"
      using rn by (simp add: x_def field_simps)
    have "1 \<le> real c" using less(1) by linarith
    then have x_lo: "1 / 2 ^ 53 \<le> x"
      using rn by (simp add: x_def field_simps)
    have "round_pos (1 - 1 / 2 ^ 53) < 2 powi 1024" unfolding round_pos_below_1 by simp
    from rnd_between [OF normal_2m53 x_lo x_hi this]
    obtain y where y: "rnd x = Finite y" "1 / 2 ^ 53 \<le> y" "y \<le> 1 - 1 / 2 ^ 53" "0 < y"
      "\<bar>y - x\<bar> \<le> x / 2 ^ 53"
      unfolding round_pos_2m53 round_pos_below_1 by blast
    have p_lo: "1 / 2 ^ 53 \<le> 100 * y" using y(2) y(4) by linarith
    have p_hi: "100 * y \<le> 100 * (1 - 1 / 2 ^ 53)" using y(3) by simp
    have "round_pos (100 * (1 - 1 / 2 ^ 53)) < 2 powi 1024" unfolding round_pos_below_100 by simp
    from rnd_between [OF normal_2m53 p_lo p_hi this]
    obtain p where p: "rnd (100 * y) = Finite p" "p \<le> 100 - 1 / 2 ^ 46" "0 < p"
      "\<bar>p - 100 * y\<bar> \<le> 100 * y / 2 ^ 53"
      unfolding round_pos_below_100 by blast
    have d_lo: "1 / 2 ^ 46 \<le> 100 - p" using p(2) by linarith
    have d_hi: "100 - p \<le> 100" using p(3) by linarith
    have "round_pos 100 < 2 powi 1024" unfolding round_pos_100 by simp
    from rnd_between [OF normal_2m46 d_lo d_hi this]
    obtain v where v: "rnd (100 - p) = Finite v" "0 < v"
      "\<bar>v - (100 - p)\<bar> \<le> (100 - p) / 2 ^ 53"
      by blast
    have res: "dminus (Finite 100)
        (dmult (Finite 100) (ddiv (double_of_size c) (double_of_size n))) = Finite v"
      unfolding start by (simp add: y(1) p(1) v(1))
    have "\<bar>v - 100 * (1 - x)\<bar> \<le> (100 + 700 * x) / 2 ^ 53"
      using y(4,5) p(3,4) v(3) by (rule ratio_error_less)
    then show ?thesis
      using res v(2) less unfolding x_def by (intro exI [of _ v]) simp
  next
    case more
    have "real n + 1 \<le> real c" using more by linarith
    then have x_lo: "2 ^ 53 / (2 ^ 53 - 1) \<le> x"
      using rn by (simp add: x_def field_simps)
    have "1 \<le> real n" using n(1) by linarith
    then have x_hi: "x \<le> 2 ^ 53"
      using rc rn(1) by (simp add: x_def field_simps)
    have normal_above_1: "(2::real) powi (- 1022) \<le> 2 ^ 53 / (2 ^ 53 - 1)"
      by (simp add: power_int_minus field_simps)
    have "round_pos (2 ^ 53) < 2 powi 1024" unfolding round_pos_2p53 by simp
    from rnd_between [OF normal_above_1 x_lo x_hi this]
    obtain y where y: "rnd x = Finite y" "1 + 1 / 2 ^ 52 \<le> y" "y \<le> 2 ^ 53" "0 < y"
      "\<bar>y - x\<bar> \<le> x / 2 ^ 53"
      unfolding round_pos_above_1 round_pos_2p53 by blast
    have normal_above_100: "(2::real) powi (- 1022) \<le> 100 * (1 + 1 / 2 ^ 52)"
      by (simp add: power_int_minus field_simps)
    have p_lo: "100 * (1 + 1 / 2 ^ 52) \<le> 100 * y" using y(2) by simp
    have p_hi: "100 * y \<le> 100 * 2 ^ 53" using y(3) by simp
    have big: "round_pos (100 * 2 ^ 53) < 2 powi 1024" unfolding round_pos_100_2p53 by simp
    from rnd_between [OF normal_above_100 p_lo p_hi big]
    obtain p where p: "rnd (100 * y) = Finite p" "100 + 1 / 2 ^ 45 \<le> p" "p \<le> 100 * 2 ^ 53"
      "0 < p" "\<bar>p - 100 * y\<bar> \<le> 100 * y / 2 ^ 53"
      unfolding round_pos_above_100 round_pos_100_2p53 by blast
    have d_lo: "1 / 2 ^ 45 \<le> p - 100" using p(2) by linarith
    have d_hi: "p - 100 \<le> 100 * 2 ^ 53" using p(3) by linarith
    from rnd_between [OF normal_2m45 d_lo d_hi big]
    obtain w where w: "rnd (- (p - 100)) = Finite (- w)" "0 < w"
      "\<bar>w - (p - 100)\<bar> \<le> (p - 100) / 2 ^ 53"
      by blast
    have "rnd (100 - p) = Finite (- w)" using w(1) by simp
    then have res: "dminus (Finite 100)
        (dmult (Finite 100) (ddiv (double_of_size c) (double_of_size n))) = Finite (- w)"
      unfolding start by (simp add: y(1) p(1))
    have "\<bar>- w - 100 * (1 - x)\<bar> \<le> (100 + 700 * x) / 2 ^ 53"
      using y(4,5) p(4,5) w(3) by (rule ratio_error_more)
    then show ?thesis
      using res w(2) more unfolding x_def by (intro exI [of _ "- w"]) simp
  qed
qed

section \<open>Basic facts\<close>

lemmas scheme_defs =
  UNDEFINED_def SHOCO_def LZ4_def MINIZ_def LZLIB_def
  NONE_def ENTROPY_def LZ77_def DEFLATE_def LZMA_def
  UNCOMPRESSED_def ASCII_def FAST_def DEFAULT_def EXTRA_def

lemma iteration_results:
  "results (iteration z unz now de dd dv original st s) =
   results st @ [record_of z unz now de dd dv original (ticks st) s]"
  by (simp add: iteration_def enc_phase_def dec_phase_def record_of_def Let_def measure_init_def)

lemma iteration_ticks:
  "ticks (iteration z unz now de dd dv original st s) = ticks st + per de dd"
  by (simp add: iteration_def enc_phase_def dec_phase_def per_def Let_def)

lemma foldl_ticks:
  "ticks (foldl (iteration z unz now de dd dv original) st encs) = ticks st + length encs * per de dd"
  by (induction encs arbitrary: st) (simp_all add: iteration_ticks)

lemma foldl_results_length:
  "length (results (foldl (iteration z unz now de dd dv original) st encs)) =
   length (results st) + length encs"
  by (induction encs arbitrary: st) (simp_all add: iteration_results)

lemma foldl_results_nth:
  "i < length encs \<Longrightarrow>
   results (foldl (iteration z unz now de dd dv original) st encs) ! (length (results st) + i) =
   record_of z unz now de dd dv original (ticks st + i * per de dd) (encs ! i)"
proof (induction encs arbitrary: i rule: rev_induct)
  case Nil
  then show ?case by simp
next
  case (snoc x xs)
  show ?case
  proof (cases "i < length xs")
    case True
    then show ?thesis
      using snoc.IH [of i]
      by (simp add: iteration_results nth_append foldl_results_length)
  next
    case False
    with snoc.prems have "i = length xs" by simp
    then show ?thesis
      by (simp add: iteration_results nth_append foldl_results_length foldl_ticks)
  qed
qed

lemma measures_length: "length (measures z unz now de dd dv original encs) = length encs"
  by (simp add: measures_def measures_run_def foldl_results_length run_init_def)

lemma measures_nth:
  "i < length encs \<Longrightarrow>
   measures z unz now de dd dv original encs ! i =
   record_of z unz now de dd dv original (i * per de dd) (encs ! i)"
  using foldl_results_nth [of i encs z unz now de dd dv original run_init]
  by (simp add: measures_def measures_run_def run_init_def)

lemmas run_defs =
  measures_def measures_run_def run_init_def iteration_def enc_phase_def dec_phase_def
  measure_init_def milliseconds_def double_of_size_def Let_def

lemmas sample_defs =
  z_copy_def unz_copy_def unz_faulty_def z_keep_def z_take_def z_grow_def clock_still_def

section \<open>Selection of the smallest output\<close>

text \<open>
  Claim C1. \<^verbatim>\<open>find_smallest_compressor\<close> is specified to pick the passing record with
  the highest ratio provided the ratio is at least 5 percent, and the comment on
  \<^verbatim>\<open>NO_COMPRESSION_TRESHOLD\<close> says the same. The loop compares the ratio with
  \<^verbatim>\<open>100 - NO_COMPRESSION_TRESHOLD / 100.0\<close>, the double nearest to 99.95. On a
  ten-byte payload that one candidate halves and the others shrink by a tenth, the three
  records pass with ratios 10, 50 and 10, and the loop on these records ends with
  \<open>NONE\<close>, not with the candidate of ratio 50. The function around the loop returns
  nothing at all: its call \<^verbatim>\<open>measures< true, false, false >\<close> is ill-formed.
\<close>

theorem find_smallest_compressor_bound_slip:
  "map ratio (measures (z_keep 50 90) unz_copy clock_still True False False ''abcdefghij''
                [MINIZ, LZ4, LZLIB]) = [Finite 10, Finite 50, Finite 10] \<and>
   map pass (measures (z_keep 50 90) unz_copy clock_still True False False ''abcdefghij''
                [MINIZ, LZ4, LZLIB]) = [True, True, True] \<and>
   map q (measures (z_keep 50 90) unz_copy clock_still True False False ''abcdefghij''
                [MINIZ, LZ4, LZLIB]) = [MINIZ, LZ4, LZLIB] \<and>
   smallest_bound = Finite (7033355980557517 / 70368744177664) \<and>
   smallest_loop NONE (Finite 0)
     (measures (z_keep 50 90) unz_copy clock_still True False False ''abcdefghij''
        [MINIZ, LZ4, LZLIB]) = NONE \<and>
   find_smallest_compressor (z_keep 50 90) unz_copy clock_still ''abcdefghij'' [MINIZ, LZ4, LZLIB]
     = Inl No_matching_function \<and>
   LZ4 \<noteq> NONE"
  by (simp add: find_smallest_compressor_def measures_with_def smallest_bound_def
      NO_COMPRESSION_TRESHOLD_def run_defs sample_defs scheme_defs rnd_defs)

section \<open>The records of \<^verbatim>\<open>measures\<close>\<close>

text \<open>
  Claim C2. In every record that \<^verbatim>\<open>measures\<close> returns, \<open>pass\<close> is true exactly when
  decompressing the candidate's own compressed output gives back the original, if
  verification, encoding and decoding are all enabled; otherwise \<open>pass\<close> is true.
\<close>

theorem measures_pass_iff_roundtrip:
  "r \<in> set (measures z unz now de dd dv original encs) \<Longrightarrow>
   pass r = (if dv \<and> de \<and> dd then unz (z original (q r)) (q r) = original else True)"
proof -
  assume "r \<in> set (measures z unz now de dd dv original encs)"
  then obtain i where i: "i < length encs"
    and r: "r = measures z unz now de dd dv original encs ! i"
    by (auto simp: in_set_conv_nth measures_length)
  show ?thesis
    unfolding r measures_nth [OF i] by (auto simp: record_of_def)
qed

theorem measures_pass_iff_roundtrip_witness:
  "\<lparr>q = LZ4, ratio = Finite 0, enctime = Finite 0, dectime = Finite 0, memusage = Finite 0,
     pass = False\<rparr>
     \<in> set (measures z_copy unz_faulty clock_still True True True ''ab'' [LZ4, NONE])
   \<and> unz_faulty (z_copy ''ab'' LZ4) LZ4 \<noteq> ''ab''"
proof -
  have mem: "\<lparr>q = LZ4, ratio = Finite 0, enctime = Finite 0, dectime = Finite 0,
      memusage = Finite 0, pass = False\<rparr>
     \<in> set (measures z_copy unz_faulty clock_still True True True ''ab'' [LZ4, NONE])"
    by (simp add: run_defs sample_defs scheme_defs rnd_defs)
  from measures_pass_iff_roundtrip [OF mem] mem show ?thesis by simp
qed

text \<open>
  Claim C3. \<^verbatim>\<open>measures\<close> returns one record per candidate, in the order of the
  candidate list. In a full run (encode, decode, verify) the record of a candidate has
  \<open>pass\<close> false exactly when that candidate does not round-trip the payload. The record
  of a candidate does not depend on what \<^verbatim>\<open>z\<close> and \<^verbatim>\<open>unz\<close> do for the other
  candidates: two pairs of collaborators that agree on one candidate give it the same record.
\<close>

theorem measures_one_record_per_candidate:
  "length (measures z unz now de dd dv original encs) = length encs \<and>
   map q (measures z unz now de dd dv original encs) = encs \<and>
   (\<forall>i<length encs.
      pass (measures z unz now True True True original encs ! i) =
        (unz (z original (encs ! i)) (encs ! i) = original) \<and>
      (z' original (encs ! i) = z original (encs ! i) \<and>
       unz' (z original (encs ! i)) (encs ! i) = unz (z original (encs ! i)) (encs ! i) \<longrightarrow>
       measures z' unz' now de dd dv original encs ! i =
       measures z unz now de dd dv original encs ! i))"
proof (intro conjI allI impI)
  show "length (measures z unz now de dd dv original encs) = length encs"
    by (rule measures_length)
  show "map q (measures z unz now de dd dv original encs) = encs"
    by (rule nth_equalityI) (simp_all add: measures_length measures_nth record_of_def)
next
  fix i assume "i < length encs"
  then show "pass (measures z unz now True True True original encs ! i) =
        (unz (z original (encs ! i)) (encs ! i) = original)"
    by (auto simp: measures_nth record_of_def)
next
  fix i
  assume "i < length encs"
    and "z' original (encs ! i) = z original (encs ! i) \<and>
       unz' (z original (encs ! i)) (encs ! i) = unz (z original (encs ! i)) (encs ! i)"
  then show "measures z' unz' now de dd dv original encs ! i =
       measures z unz now de dd dv original encs ! i"
    by (simp add: measures_nth record_of_def)
qed

theorem measures_one_record_per_candidate_witness:
  "map q (measures z_copy unz_faulty clock_still True True True ''ab'' [LZ4, NONE]) = [LZ4, NONE] \<and>
   pass (measures z_copy unz_faulty clock_still True True True ''ab'' [LZ4, NONE] ! 0) = False \<and>
   pass (measures z_copy unz_faulty clock_still True True True ''ab'' [LZ4, NONE] ! 1) = True \<and>
   measures z_copy unz_copy clock_still True True True ''ab'' [LZ4, NONE] ! 1 =
   measures z_copy unz_faulty clock_still True True True ''ab'' [LZ4, NONE] ! 1"
  using measures_one_record_per_candidate
    [where z = z_copy and unz = unz_faulty and now = clock_still and de = True and dd = True
       and dv = True and original = "''ab''" and encs = "[LZ4, NONE]"
       and z' = z_copy and unz' = unz_copy]
  by (simp add: sample_defs scheme_defs All_less_Suc2 numeral_2_eq_2)

text \<open>
  Claim C4, as stated, at a three-byte payload compressed to one byte: the ratio field is
  the double 4691249611844267 / 70368744177664, which is not \<open>100 * (1 - 1 / 3)\<close>.
\<close>

theorem measures_ratio_inexact:
  "ratio (measures (z_take 1) unz_copy clock_still True False False ''abc'' [LZ4] ! 0) =
     Finite (4691249611844267 / 70368744177664) \<and>
   length (z_take 1 ''abc'' LZ4) = 1 \<and> length ''abc'' = 3 \<and>
   (4691249611844267 / 70368744177664 :: real) \<noteq> 100 * (1 - 1 / 3)"
proof -
  have "ratio (measures (z_take 1) unz_copy clock_still True False False ''abc'' [LZ4] ! 0) =
      dminus (Finite 100) (dmult (Finite 100) (ddiv (double_of_size 1) (double_of_size 3)))"
    by (simp add: measures_nth record_of_def z_take_def numeral_3_eq_3)
  moreover have "double_of_size 1 = Finite 1" "double_of_size 3 = Finite 3"
    using rnd_of_nat [of 1] rnd_of_nat [of 3] by (simp_all add: double_of_size_def)
  moreover have "rnd (1 / 3) = Finite (6004799503160661 / 18014398509481984)"
    by (simp add: rnd_defs)
  moreover have "rnd (100 * (6004799503160661 / 18014398509481984)) =
      Finite (2345624805922133 / 70368744177664)"
    by (simp add: rnd_defs)
  moreover have "rnd (100 - 2345624805922133 / 70368744177664) =
      Finite (4691249611844267 / 70368744177664)"
    by (simp add: rnd_defs)
  ultimately have "ratio (measures (z_take 1) unz_copy clock_still True False False ''abc'' [LZ4] ! 0) =
     Finite (4691249611844267 / 70368744177664)"
    by simp
  then show ?thesis by (simp add: z_take_def)
qed

text \<open>
  Claim C4, as the code has it. For a non-empty payload, with the encode phase enabled and
  both sizes below \<open>2^53\<close> bytes, the ratio field is the result of
  \<^verbatim>\<open>100 - 100 * ( double( zipped.size() ) / original.size() )\<close> in double arithmetic,
  each of the three operations rounded to the nearest double. It is a finite double within
  \<open>(100 + 700 * c / o) / 2^53\<close> of \<open>100 * (1 - c / o)\<close>, where \<open>c\<close> is the compressed
  and \<open>o\<close> the original size; it is zero exactly when the sizes are equal and negative
  exactly when the output is longer than the payload.
\<close>

theorem measures_ratio_rounded:
  assumes "original \<noteq> []" and "i < length encs"
    and "length original < 2 ^ 53" and "length (z original (encs ! i)) < 2 ^ 53"
  shows "ratio (measures z unz now True dd dv original encs ! i) =
           dminus (Finite 100)
             (dmult (Finite 100)
                (ddiv (double_of_size (length (z original (encs ! i))))
                      (double_of_size (length original)))) \<and>
         (\<exists>v. ratio (measures z unz now True dd dv original encs ! i) = Finite v \<and>
              \<bar>v - 100 * (1 - real (length (z original (encs ! i))) / real (length original))\<bar>
                \<le> (100 + 700 * (real (length (z original (encs ! i))) / real (length original)))
                     / 2 ^ 53 \<and>
              (v = 0 \<longleftrightarrow> length (z original (encs ! i)) = length original) \<and>
              (v < 0 \<longleftrightarrow> length original < length (z original (encs ! i))))"
proof -
  have r: "ratio (measures z unz now True dd dv original encs ! i) =
           dminus (Finite 100)
             (dmult (Finite 100)
                (ddiv (double_of_size (length (z original (encs ! i))))
                      (double_of_size (length original))))"
    using assms(2) by (simp add: measures_nth record_of_def)
  have "0 < length original" using assms(1) by simp
  from ratio_double [OF this assms(3) assms(4)] r show ?thesis by simp
qed

theorem measures_ratio_rounded_witness:
  "''abc'' \<noteq> [] \<and> (0::nat) < length [LZ4] \<and> length ''abc'' < 2 ^ 53 \<and>
   length (z_take 1 ''abc'' ([LZ4] ! 0)) < 2 ^ 53 \<and>
   (\<exists>v. ratio (measures (z_take 1) unz_copy clock_still True False False ''abc'' [LZ4] ! 0) =
          Finite v \<and>
        \<bar>v - 100 * (1 - real (length (z_take 1 ''abc'' ([LZ4] ! 0))) / real (length ''abc''))\<bar>
          \<le> (100 + 700 * (real (length (z_take 1 ''abc'' ([LZ4] ! 0))) / real (length ''abc'')))
               / 2 ^ 53 \<and>
        (v = 0 \<longleftrightarrow> length (z_take 1 ''abc'' ([LZ4] ! 0)) = length ''abc'') \<and>
        (v < 0 \<longleftrightarrow> length ''abc'' < length (z_take 1 ''abc'' ([LZ4] ! 0))))"
proof -
  have 1: "''abc'' \<noteq> []" by simp
  have 2: "(0::nat) < length [LZ4]" by simp
  have 3: "length ''abc'' < 2 ^ 53" by simp
  have 4: "length (z_take 1 ''abc'' ([LZ4] ! 0)) < 2 ^ 53" by (simp add: z_take_def)
  note t = measures_ratio_rounded
    [where original = "''abc''" and i = 0 and encs = "[LZ4]" and z = "z_take 1"
       and unz = unz_copy and now = clock_still and dd = False and dv = False, OF 1 2 3 4]
  from 1 2 3 4 t [THEN conjunct2] show ?thesis by (intro conjI)
qed

text \<open>
  The bound on the sizes cannot be dropped: the conversion of a size to a double rounds
  from \<open>2^53\<close> on, so a payload of \<open>2^53\<close> bytes that grows by one byte gets the
  ratio zero.
\<close>

lemma rnd_2p53_plus_1: "rnd (2 ^ 53 + 1) = Finite (2 ^ 53)"
  by (simp add: rnd_defs)

lemma rnd_2p53: "rnd (2 ^ 53) = Finite (2 ^ 53)"
  by (simp add: rnd_defs)

lemma ratio_zero_on_growth:
  "ratio (measures z_grow unz_copy clock_still True False False
            (replicate (2 ^ 53) (CHR ''a'')) [LZ4] ! 0) = Finite 0 \<and>
   length (z_grow (replicate (2 ^ 53) (CHR ''a'')) LZ4) = 2 ^ 53 + 1 \<and>
   length (replicate (2 ^ 53) (CHR ''a'')) = 2 ^ 53"
proof -
  have "ratio (measures z_grow unz_copy clock_still True False False
            (replicate (2 ^ 53) (CHR ''a'')) [LZ4] ! 0) =
      dminus (Finite 100)
        (dmult (Finite 100) (ddiv (rnd (2 ^ 53 + 1)) (rnd (2 ^ 53))))"
    by (simp add: measures_nth record_of_def z_grow_def double_of_size_def)
  also have "\<dots> = Finite 0"
    unfolding rnd_2p53_plus_1 rnd_2p53 by (simp add: rnd_1 rnd_100 rnd_0)
  finally show ?thesis by (simp add: z_grow_def)
qed

section \<open>The selectors\<close>

text \<open>
  Claim C5. \<^verbatim>\<open>find_fastest_compressor\<close> is specified to return the passing identifier
  with the lowest encode time. Its call \<^verbatim>\<open>measures< true, false, false >\<close> gives a
  boolean constant for the type parameter \<^verbatim>\<open>T\<close>, so the function cannot be
  instantiated: for no payload and no candidate list does it return an identifier.
\<close>

theorem find_fastest_compressor_ill_formed:
  "find_fastest_compressor z unz now original encs = Inl No_matching_function"
  by (simp add: find_fastest_compressor_def measures_with_def)

text \<open>
  Claim C10. Each selector is specified to return \<open>NONE\<close> on an empty candidate list
  and when no record satisfies its test. All three selectors make the ill-formed call, so
  none of them can be instantiated and none returns \<open>NONE\<close>, on the empty candidate
  list or on any other.
\<close>

theorem selectors_ill_formed:
  "find_smallest_compressor z unz now original [] = Inl No_matching_function \<and>
   find_fastest_compressor z unz now original [] = Inl No_matching_function \<and>
   find_fastest_decompressor z unz now original [] = Inl No_matching_function"
  by (simp add: find_smallest_compressor_def find_fastest_compressor_def
      find_fastest_decompressor_def measures_with_def)

text \<open>
  What the three loops do on records, whatever call produced them: a loop keeps its initial
  identifier when no record passes its test against the initial value, and the loop for the
  fastest encoder ends with the first record of lowest encode time among the passing
  records below its initial bound.
\<close>

lemma dless_trans: "dless x y \<Longrightarrow> dless y w \<Longrightarrow> dless x w"
  by (cases x; cases y; cases w) simp_all

lemma dless_dgeq_trans: "dless x y \<Longrightarrow> dgeq w y \<Longrightarrow> dless x w"
  by (cases x; cases y; cases w) simp_all

lemma dless_imp_dgeq: "dless x y \<Longrightarrow> dgeq y x"
  by (cases x; cases y) simp_all

lemma not_dless_finite: "x \<in> range Finite \<Longrightarrow> y \<in> range Finite \<Longrightarrow> \<not> dless x y \<Longrightarrow> dgeq x y"
  by auto

lemma dgeq_refl_finite: "x \<in> range Finite \<Longrightarrow> dgeq x x"
  by auto

lemma fastest_enc_loop_none:
  "\<forall>r\<in>set rs. \<not> (pass r \<and> dless (enctime r) normal_above_1) \<Longrightarrow> fastest_enc_loop q0 normal_above_1 rs = q0"
  by (induction rs) auto

lemma fastest_dec_loop_none:
  "\<forall>r\<in>set rs. \<not> (pass r \<and> dless (dectime r) normal_above_1) \<Longrightarrow> fastest_dec_loop q0 normal_above_1 rs = q0"
  by (induction rs) auto

lemma smallest_loop_none:
  "\<forall>r\<in>set rs. \<not> (pass r \<and> dless b (ratio r) \<and> dgeq (ratio r) smallest_bound) \<Longrightarrow>
   smallest_loop q0 b rs = q0"
  by (induction rs) auto

lemma fastest_enc_loop_some:
  assumes "\<forall>r\<in>set rs. enctime r \<in> range Finite" and "normal_above_1 \<in> range Finite"
    and "\<exists>r\<in>set rs. pass r \<and> dless (enctime r) normal_above_1"
  shows "\<exists>i<length rs. fastest_enc_loop q0 normal_above_1 rs = q (rs ! i) \<and> pass (rs ! i) \<and>
           dless (enctime (rs ! i)) normal_above_1 \<and>
           (\<forall>j<length rs. pass (rs ! j) \<longrightarrow> dgeq (enctime (rs ! j)) (enctime (rs ! i))) \<and>
           (\<forall>j<i. pass (rs ! j) \<longrightarrow> dless (enctime (rs ! i)) (enctime (rs ! j)))"
  using assms
proof (induction rs arbitrary: q0 normal_above_1)
  case Nil
  then show ?case by simp
next
  case (Cons r rs)
  have fin: "\<forall>r\<in>set rs. enctime r \<in> range Finite" and finr: "enctime r \<in> range Finite"
    using Cons.prems(1) by simp_all
  show ?case
  proof (cases "pass r \<and> dless (enctime r) normal_above_1")
    case sel: True
    show ?thesis
    proof (cases "\<exists>r'\<in>set rs. pass r' \<and> dless (enctime r') (enctime r)")
      case True
      from Cons.IH [OF fin finr True, of "q r"]
      obtain i where i: "i < length rs"
        and res: "fastest_enc_loop (q r) (enctime r) rs = q (rs ! i)"
        and p: "pass (rs ! i)" and lt: "dless (enctime (rs ! i)) (enctime r)"
        and mn: "\<forall>j<length rs. pass (rs ! j) \<longrightarrow> dgeq (enctime (rs ! j)) (enctime (rs ! i))"
        and st: "\<forall>j<i. pass (rs ! j) \<longrightarrow> dless (enctime (rs ! i)) (enctime (rs ! j))"
        by blast
      have "Suc i < length (r # rs)" using i by simp
      moreover have "fastest_enc_loop q0 normal_above_1 (r # rs) = q ((r # rs) ! Suc i)"
        using sel res by simp
      moreover have "pass ((r # rs) ! Suc i)" using p by simp
      moreover have "dless (enctime ((r # rs) ! Suc i)) normal_above_1"
        using lt sel by (auto intro: dless_trans)
      moreover have "\<forall>j<length (r # rs). pass ((r # rs) ! j) \<longrightarrow>
          dgeq (enctime ((r # rs) ! j)) (enctime ((r # rs) ! Suc i))"
      proof (intro allI impI)
        fix j assume "j < length (r # rs)" "pass ((r # rs) ! j)"
        then show "dgeq (enctime ((r # rs) ! j)) (enctime ((r # rs) ! Suc i))"
          using mn lt dless_imp_dgeq by (cases j) auto
      qed
      moreover have "\<forall>j<Suc i. pass ((r # rs) ! j) \<longrightarrow>
          dless (enctime ((r # rs) ! Suc i)) (enctime ((r # rs) ! j))"
      proof (intro allI impI)
        fix j assume "j < Suc i" "pass ((r # rs) ! j)"
        then show "dless (enctime ((r # rs) ! Suc i)) (enctime ((r # rs) ! j))"
          using st lt by (cases j) auto
      qed
      ultimately show ?thesis by blast
    next
      case False
      then have none: "\<forall>r'\<in>set rs. \<not> (pass r' \<and> dless (enctime r') (enctime r))" by blast
      have "fastest_enc_loop q0 normal_above_1 (r # rs) = q ((r # rs) ! 0)"
        using sel fastest_enc_loop_none [OF none] by simp
      moreover have "\<forall>j<length (r # rs). pass ((r # rs) ! j) \<longrightarrow>
          dgeq (enctime ((r # rs) ! j)) (enctime ((r # rs) ! 0))"
      proof (intro allI impI)
        fix j assume j: "j < length (r # rs)" "pass ((r # rs) ! j)"
        show "dgeq (enctime ((r # rs) ! j)) (enctime ((r # rs) ! 0))"
        proof (cases j)
          case 0
          then show ?thesis using finr dgeq_refl_finite by simp
        next
          case (Suc k)
          then have k: "rs ! k \<in> set rs" "pass (rs ! k)" using j by simp_all
          then have "\<not> dless (enctime (rs ! k)) (enctime r)" using none by blast
          then show ?thesis
            using Suc k fin finr not_dless_finite by simp
        qed
      qed
      ultimately show ?thesis using sel by (intro exI [of _ 0]) simp
    qed
  next
    case nsel: False
    then have ex: "\<exists>r'\<in>set rs. pass r' \<and> dless (enctime r') normal_above_1"
      using Cons.prems(3) by auto
    from Cons.IH [OF fin Cons.prems(2) ex, of q0]
    obtain i where i: "i < length rs"
      and res: "fastest_enc_loop q0 normal_above_1 rs = q (rs ! i)"
      and p: "pass (rs ! i)" and lt: "dless (enctime (rs ! i)) normal_above_1"
      and mn: "\<forall>j<length rs. pass (rs ! j) \<longrightarrow> dgeq (enctime (rs ! j)) (enctime (rs ! i))"
      and st: "\<forall>j<i. pass (rs ! j) \<longrightarrow> dless (enctime (rs ! i)) (enctime (rs ! j))"
      by blast
    have r_ge: "pass r \<Longrightarrow> dgeq (enctime r) normal_above_1"
      using nsel finr Cons.prems(2) not_dless_finite by blast
    have "Suc i < length (r # rs)" using i by simp
    moreover have "fastest_enc_loop q0 normal_above_1 (r # rs) = q ((r # rs) ! Suc i)"
      using nsel res by auto
    moreover have "pass ((r # rs) ! Suc i)" using p by simp
    moreover have "dless (enctime ((r # rs) ! Suc i)) normal_above_1" using lt by simp
    moreover have "\<forall>j<length (r # rs). pass ((r # rs) ! j) \<longrightarrow>
        dgeq (enctime ((r # rs) ! j)) (enctime ((r # rs) ! Suc i))"
    proof (intro allI impI)
      fix j assume "j < length (r # rs)" "pass ((r # rs) ! j)"
      then show "dgeq (enctime ((r # rs) ! j)) (enctime ((r # rs) ! Suc i))"
        using mn lt r_ge dless_dgeq_trans dless_imp_dgeq by (cases j) auto
    qed
    moreover have "\<forall>j<Suc i. pass ((r # rs) ! j) \<longrightarrow>
        dless (enctime ((r # rs) ! Suc i)) (enctime ((r # rs) ! j))"
    proof (intro allI impI)
      fix j assume "j < Suc i" "pass ((r # rs) ! j)"
      then show "dless (enctime ((r # rs) ! Suc i)) (enctime ((r # rs) ! j))"
        using st lt r_ge dless_dgeq_trans by (cases j) auto
    qed
    ultimately show ?thesis by blast
  qed
qed

section \<open>Order of encode and decode\<close>

text \<open>
  Claim C6. The decode step of a candidate is specified to work on the compressed bytes
  that the encode step of the same candidate has just produced. In a run with the encode
  phase disabled and the decode phase enabled, the run that \<^verbatim>\<open>find_fastest_decompressor\<close>
  asks for, \<^verbatim>\<open>zipped\<close> is never assigned: \<^verbatim>\<open>unz\<close> is called on the empty string,
  with no call of \<^verbatim>\<open>z\<close> before it, whatever the payload.
\<close>

theorem decode_only_run_decodes_empty:
  "calls (measures_run z_copy unz_copy clock_still False True False ''abc'' [LZ4]) =
     [Call_unz LZ4 [] []] \<and>
   \<not> dec_after_own_enc (calls (measures_run z_copy unz_copy clock_still False True False ''abc'' [LZ4])) \<and>
   z_copy ''abc'' LZ4 = ''abc''"
  by (simp add: run_defs sample_defs)

text \<open>
  With the encode phase enabled the order is as specified: the calls of one run are,
  candidate by candidate in the order of the list, the call of \<^verbatim>\<open>z\<close> on the payload
  followed (if the decode phase is enabled) by the call of \<^verbatim>\<open>unz\<close> on the string that
  call of \<^verbatim>\<open>z\<close> returned.
\<close>

lemma iteration_calls:
  "calls (iteration z unz now True dd dv original st s) =
   calls st @ Call_z s original (z original s) #
     (if dd then [Call_unz s (z original s) (unz (z original s) s)] else [])"
  by (simp add: iteration_def enc_phase_def dec_phase_def Let_def)

lemma foldl_calls:
  "calls (foldl (iteration z unz now True dd dv original) st encs) =
   calls st @ concat (map (\<lambda>s. Call_z s original (z original s) #
     (if dd then [Call_unz s (z original s) (unz (z original s) s)] else [])) encs)"
  by (induction encs arbitrary: st) (simp_all add: iteration_calls)

lemma dec_after_own_enc_pairs:
  "dec_after_own_enc (concat (map (\<lambda>s. [Call_z s x (f s), Call_unz s (f s) (g s)]) encs))"
  by (induction encs) simp_all

lemma dec_after_own_enc_singles:
  "dec_after_own_enc (concat (map (\<lambda>s. [Call_z s x (f s)]) encs))"
proof (induction encs)
  case Nil
  then show ?case by simp
next
  case (Cons s encs)
  then show ?case by (cases encs) simp_all
qed

lemma encode_run_call_order:
  "map q (measures z unz now de dd dv original encs) = encs \<and>
   calls (measures_run z unz now True dd dv original encs) =
     concat (map (\<lambda>s. Call_z s original (z original s) #
       (if dd then [Call_unz s (z original s) (unz (z original s) s)] else [])) encs) \<and>
   dec_after_own_enc (calls (measures_run z unz now True dd dv original encs))"
proof (intro conjI)
  show "map q (measures z unz now de dd dv original encs) = encs"
    by (rule nth_equalityI) (simp_all add: measures_length measures_nth record_of_def)
  show c: "calls (measures_run z unz now True dd dv original encs) =
     concat (map (\<lambda>s. Call_z s original (z original s) #
       (if dd then [Call_unz s (z original s) (unz (z original s) s)] else [])) encs)"
    by (simp add: measures_run_def foldl_calls run_init_def)
  show "dec_after_own_enc (calls (measures_run z unz now True dd dv original encs))"
    unfolding c
    using dec_after_own_enc_pairs [of original "z original" "\<lambda>s. unz (z original s) s" encs]
      dec_after_own_enc_singles [of original "z original" encs]
    by (cases dd) simp_all
qed

section \<open>The buffer templates\<close>

lemma length_resize: "length (resize n buf) = n"
  by (simp add: resize_def)

lemma resize_Nil_iff: "resize n buf = [] \<longleftrightarrow> n = 0"
  using length_resize [of n buf] by (metis length_0_conv)

text \<open>
  Claim C7. Packing a zero-length buffer is specified to succeed. The template
  \<^verbatim>\<open>pack\<close> evaluates \<^verbatim>\<open>buffer_in.at(0)\<close> before it calls the low-level function,
  so on an empty input it throws \<^verbatim>\<open>std::out_of_range\<close>, whatever the identifier and
  the low-level functions are, and leaves the output container resized to the bound.
  \<^verbatim>\<open>unpack\<close> into a zero-length output buffer throws in the same way.
\<close>

theorem pack_empty_throws:
  "pack lpack bound buffer_out [] s = (Inl Out_of_range, resize (bound s 0) buffer_out) \<and>
   unpack lunpack [] buffer_in s = (Inl Out_of_range, [])"
  by (simp add: pack_def unpack_def)

text \<open>
  Claim C8. A failing \<^verbatim>\<open>pack\<close> is specified to return false and to leave the output
  container empty. On an empty input the template fails by throwing
  \<^verbatim>\<open>std::out_of_range\<close> after it has resized the output container to the bound: it
  returns no boolean, and the container keeps its old bytes, padded with zero bytes up to
  the bound.
\<close>

theorem pack_throw_leaves_resized:
  "pack lpack_copy (\<lambda>s len. len + 5) ''old'' [] NONE =
     (Inl Out_of_range, [CHR ''o'', CHR ''l'', CHR ''d'', CHR 0x00, CHR 0x00]) \<and>
   fst (pack lpack bound buffer_out [] s) \<noteq> Inr False \<and>
   length (snd (pack lpack bound buffer_out [] s)) = bound s 0"
  by (simp add: pack_def resize_def Let_def eval_nat_numeral)

text \<open>
  When the low-level call is reached (non-empty input, non-zero bound) the template does
  what is specified: it returns the boolean of that call, with an empty container for false
  and a container of the reported size for true.
\<close>

lemma pack_returns:
  "(fst (pack lpack bound buffer_out buffer_in s) = Inr False \<longrightarrow>
      snd (pack lpack bound buffer_out buffer_in s) = []) \<and>
   (fst (pack lpack bound buffer_out buffer_in s) = Inr True \<longrightarrow>
      (\<exists>written zlen.
         lpack s buffer_in (resize (bound s (length buffer_in)) buffer_out)
           (bound s (length buffer_in)) = (True, written, zlen) \<and>
         snd (pack lpack bound buffer_out buffer_in s) = resize zlen written \<and>
         length (snd (pack lpack bound buffer_out buffer_in s)) = zlen)) \<and>
   (buffer_in \<noteq> [] \<and> bound s (length buffer_in) \<noteq> 0 \<longrightarrow>
      fst (pack lpack bound buffer_out buffer_in s) =
        Inr (fst (lpack s buffer_in (resize (bound s (length buffer_in)) buffer_out)
                    (bound s (length buffer_in)))))"
proof (cases "buffer_in = [] \<or> resize (bound s (length buffer_in)) buffer_out = []")
  case True
  then show ?thesis by (auto simp: pack_def Let_def resize_Nil_iff)
next
  case False
  obtain result written zlen where
    l: "lpack s buffer_in (resize (bound s (length buffer_in)) buffer_out)
          (bound s (length buffer_in)) = (result, written, zlen)"
    by (cases "lpack s buffer_in (resize (bound s (length buffer_in)) buffer_out)
          (bound s (length buffer_in))") auto
  have "pack lpack bound buffer_out buffer_in s =
      (if result then (Inr True, resize zlen written) else (Inr False, []))"
    using False l by (simp add: pack_def Let_def)
  then show ?thesis using l by (simp add: length_resize)
qed


text \<open>
  When the packed stream is not empty, the round trip through the two templates holds for
  every codec that meets the contract.
\<close>

lemma roundtrip_nonempty_stream:
  assumes contract: "\<And>c x zs. registry s = Some c \<Longrightarrow> cpack c x = Some zs \<Longrightarrow>
                        cunpack c zs (length x) = Some x"
    and ok: "pack (spec_pack registry) bound buffer_out x s = (Inr True, zx)"
    and nonempty: "zx \<noteq> []"
    and len: "length out2 = length x"
  shows "unpack (spec_unpack registry) out2 zx s = (Inr True, x)"
proof -
  from ok have x: "x \<noteq> []"
    by (auto simp: pack_def Let_def split: if_splits prod.splits)
  from ok obtain c zs where c: "registry s = Some c" and zs: "cpack c x = Some zs"
    and zx: "zx = zs"
    by (auto simp: pack_def Let_def spec_pack_def resize_def
        split: if_splits prod.splits option.splits)
  have "cunpack c zs (length x) = Some x" using contract c zs by blast
  then show ?thesis
    using x nonempty len c zx
    by (auto simp: unpack_def Let_def spec_unpack_def)
qed

end
